theory Spec2Isabelle
  imports Main "HOL-Library.Sublist"
begin

section \<open>Python values used by \<open>browser.py\<close>\<close>

text \<open>
  The exceptions the modelled code can raise: \<open>ValueError\<close> is raised by
  \<open>HashMapper.insert\<close> ("Hash table is full! Increase table_size."),
  \<open>ZeroDivisionError\<close> by \<open>%\<close> and \<open>//\<close> with a zero divisor,
  \<open>IndexError\<close> by list indexing out of range.
\<close>

datatype py_error = ValueError | ZeroDivisionError | IndexError

type_synonym 'a result = "py_error + 'a"

text \<open>
  \<open>hashlib.sha256(word.encode('utf-8')).hexdigest()\<close> read by \<open>int(_, 16)\<close> is a
  natural number below \<open>2 ^ 256\<close>. The hash function itself is a library, not code of
  the repository: it is a parameter \<open>H\<close> of every function that hashes, and the
  theorems hold for every \<open>H\<close>.
\<close>

type_synonym digest = "string \<Rightarrow> nat"

text \<open>
  Python list indexing \<open>xs[i]\<close>: a negative index counts from the end, an index out
  of range raises \<open>IndexError\<close>.
\<close>

definition py_index :: "'a list \<Rightarrow> int \<Rightarrow> nat result" where
  "py_index xs i =
     (let n = int (length xs); j = (if i < 0 then n + i else i)
      in if 0 \<le> j \<and> j < n then Inr (nat j) else Inl IndexError)"

definition py_getitem :: "'a list \<Rightarrow> int \<Rightarrow> 'a result" where
  "py_getitem xs i = (case py_index xs i of Inl e \<Rightarrow> Inl e | Inr j \<Rightarrow> Inr (xs ! j))"

definition py_setitem :: "'a list \<Rightarrow> int \<Rightarrow> 'a \<Rightarrow> 'a list result" where
  "py_setitem xs i v = (case py_index xs i of Inl e \<Rightarrow> Inl e | Inr j \<Rightarrow> Inr (xs[j := v]))"

subsection \<open>Characters and strings\<close>

text \<open>
  Strings are modelled as ASCII strings: \<open>str.lower\<close>, \<open>str.upper\<close>,
  \<open>str.strip\<close>, \<open>str.isupper\<close>, \<open>str.istitle\<close>, \<open>str.capitalize\<close> and the
  regular expression classes \<open>[a-zA-Z]\<close> and \<open>\w\<close> are given their meaning on the
  codes 0 to 127. A character with a code above 127 has no case, is no white space and
  no word character here.
\<close>

definition is_upper :: "char \<Rightarrow> bool" where
  "is_upper c = (let n = (of_char c :: nat) in 65 \<le> n \<and> n \<le> 90)"

definition is_lower :: "char \<Rightarrow> bool" where
  "is_lower c = (let n = (of_char c :: nat) in 97 \<le> n \<and> n \<le> 122)"

definition is_alpha :: "char \<Rightarrow> bool" where
  "is_alpha c = (is_upper c \<or> is_lower c)"

definition is_digit :: "char \<Rightarrow> bool" where
  "is_digit c = (let n = (of_char c :: nat) in 48 \<le> n \<and> n \<le> 57)"

text \<open>The class \<open>\w\<close> of \<open>re\<close>: letters, digits and the underscore.\<close>

definition is_word_char :: "char \<Rightarrow> bool" where
  "is_word_char c = (is_alpha c \<or> is_digit c \<or> (of_char c :: nat) = 95)"

text \<open>
  \<open>str.isspace\<close> on ASCII: tab, line feed, vertical tab, form feed, carriage return,
  the separators \<open>0x1c\<close> to \<open>0x1f\<close> and the space.
\<close>

definition is_space :: "char \<Rightarrow> bool" where
  "is_space c = (let n = (of_char c :: nat) in (9 \<le> n \<and> n \<le> 13) \<or> (28 \<le> n \<and> n \<le> 32))"

definition to_lower :: "char \<Rightarrow> char" where
  "to_lower c = (if is_upper c then char_of (of_char c + (32 :: nat)) else c)"

definition to_upper :: "char \<Rightarrow> char" where
  "to_upper c = (if is_lower c then char_of (of_char c - (32 :: nat)) else c)"

definition lower :: "string \<Rightarrow> string" where
  "lower s = map to_lower s"

definition upper :: "string \<Rightarrow> string" where
  "upper s = map to_upper s"

definition strip :: "string \<Rightarrow> string" where
  "strip s = rev (dropWhile is_space (rev (dropWhile is_space s)))"

text \<open>\<open>str.capitalize\<close>: the first character in upper case, the rest in lower case.\<close>

definition capitalize :: "string \<Rightarrow> string" where
  "capitalize s = (case s of [] \<Rightarrow> [] | c # cs \<Rightarrow> to_upper c # lower cs)"

text \<open>
  \<open>str.isupper\<close>: there is a cased character and no cased character is in lower case.
\<close>

definition isupper :: "string \<Rightarrow> bool" where
  "isupper s = ((\<exists>c \<in> set s. is_upper c) \<and> (\<forall>c \<in> set s. \<not> is_lower c))"

text \<open>
  \<open>str.istitle\<close>, as CPython computes it: an upper case character may only follow an
  uncased one, a lower case character only a cased one, and there is a cased character.
  \<open>istitle_from prev cased s\<close> is the loop over the characters with its two flags.
\<close>

fun istitle_from :: "bool \<Rightarrow> bool \<Rightarrow> string \<Rightarrow> bool" where
  "istitle_from previous_is_cased cased [] = cased"
| "istitle_from previous_is_cased cased (c # cs) =
     (if is_upper c then
        (if previous_is_cased then False else istitle_from True True cs)
      else if is_lower c then
        (if \<not> previous_is_cased then False else istitle_from True True cs)
      else istitle_from False cased cs)"

definition istitle :: "string \<Rightarrow> bool" where
  "istitle s = istitle_from False False s"

section \<open>The hash table: class \<open>HashMapper\<close>\<close>

text \<open>
  The object's four fields. \<open>table\<close> is the list \<open>[None] * table_size\<close> with its
  slots, \<open>None\<close> for an empty one; the two dictionaries are maps. Indices are Python
  integers.
\<close>

record hash_mapper =
  table_size :: int
  table :: "string option list"
  word_to_index :: "string \<rightharpoonup> int"
  index_to_word :: "int \<rightharpoonup> string"

text \<open>
  \<open>__init__\<close>: no statement of it raises; \<open>[None] * table_size\<close> is the empty list
  for a \<open>table_size\<close> of zero or less.
\<close>

definition new_mapper :: "int \<Rightarrow> hash_mapper" where
  "new_mapper n =
     \<lparr>table_size = n, table = replicate (nat n) None,
      word_to_index = Map.empty, index_to_word = Map.empty\<rparr>"

definition init :: "int \<Rightarrow> hash_mapper result" where
  "init n = Inr (new_mapper n)"

text \<open>\<open>_compute_hash\<close>: \<open>int_hash % self.table_size\<close>.\<close>

definition compute_hash :: "digest \<Rightarrow> hash_mapper \<Rightarrow> string \<Rightarrow> int result" where
  "compute_hash H m word =
     (if table_size m = 0 then Inl ZeroDivisionError
      else Inr (int (H word) mod table_size m))"

text \<open>
  \<open>_compute_step\<close>: \<open>1 + (int_hash // self.table_size) % (self.table_size - 1)\<close>.
  Python's \<open>//\<close> and \<open>%\<close> round to minus infinity, as \<open>div\<close> and \<open>mod\<close> on
  \<open>int\<close> do, and raise on a zero divisor.
\<close>

definition compute_step :: "digest \<Rightarrow> hash_mapper \<Rightarrow> string \<Rightarrow> int result" where
  "compute_step H m word =
     (if table_size m = 0 then Inl ZeroDivisionError
      else if table_size m - 1 = 0 then Inl ZeroDivisionError
      else Inr (1 + (int (H word) div table_size m) mod (table_size m - 1)))"

text \<open>
  The \<open>while\<close> loop of \<open>insert\<close>, entered with \<open>index = original_index\<close> and
  \<open>probe = 0\<close>: it returns the index of the first empty slot, or raises.
\<close>

function insert_probe :: "string option list \<Rightarrow> int \<Rightarrow> int \<Rightarrow> int \<Rightarrow> int \<Rightarrow> int result" where
  "insert_probe tbl n original_index index probe =
     (case py_getitem tbl index of
        Inl e \<Rightarrow> Inl e
      | Inr None \<Rightarrow> Inr index
      | Inr (Some _) \<Rightarrow>
          (if n = 0 then Inl ZeroDivisionError
           else if probe + 1 \<ge> n then Inl ValueError
           else insert_probe tbl n original_index ((original_index + (probe + 1)) mod n) (probe + 1)))"
  by pat_completeness auto
termination
  by (relation "measure (\<lambda>(tbl, n, original_index, index, probe). nat (n - probe))") auto

declare insert_probe.simps [simp del]

text \<open>
  \<open>insert\<close> (here \<open>insert_word\<close>) returns the exception it raised, if any, and
  the object as the call left it. Every \<open>raise\<close> comes before the three assignments at the end.
\<close>

definition insert_word :: "digest \<Rightarrow> hash_mapper \<Rightarrow> string \<Rightarrow> py_error option \<times> hash_mapper" where
  "insert_word H m word =
     (if word_to_index m word \<noteq> None then (None, m)
      else
        (case compute_hash H m word of
           Inl e \<Rightarrow> (Some e, m)
         | Inr original_index \<Rightarrow>
             (case insert_probe (table m) (table_size m) original_index original_index 0 of
                Inl e \<Rightarrow> (Some e, m)
              | Inr index \<Rightarrow>
                  (case py_setitem (table m) index (Some word) of
                     Inl e \<Rightarrow> (Some e, m)
                   | Inr tbl \<Rightarrow>
                       (None,
                        m\<lparr>table := tbl,
                          word_to_index := (word_to_index m)(word \<mapsto> index),
                          index_to_word := (index_to_word m)(index \<mapsto> word)\<rparr>)))))"

text \<open>
  \<open>insert_words\<close>: the words that are not blank are inserted stripped and in lower
  case; an exception of \<open>insert\<close> ends the loop.
\<close>

fun insert_words :: "digest \<Rightarrow> hash_mapper \<Rightarrow> string list \<Rightarrow> py_error option \<times> hash_mapper" where
  "insert_words H m [] = (None, m)"
| "insert_words H m (word # words) =
     (if word \<noteq> [] \<and> strip word \<noteq> [] then
        (case insert_word H m (lower (strip word)) of
           (Some e, m') \<Rightarrow> (Some e, m')
         | (None, m') \<Rightarrow> insert_words H m' words)
      else insert_words H m words)"

text \<open>
  The \<open>while\<close> loop of \<open>find_encrypted_word\<close>, entered with
  \<open>probe_index = start_probe\<close> and \<open>attempts = 0\<close>.
\<close>

function find_loop ::
  "string option list \<Rightarrow> int \<Rightarrow> string \<Rightarrow> int \<Rightarrow> int \<Rightarrow> int \<Rightarrow> int \<Rightarrow> string option result" where
  "find_loop tbl n word step start_probe probe_index attempts =
     (if attempts < n then
        (case py_getitem tbl probe_index of
           Inl e \<Rightarrow> Inl e
         | Inr slot \<Rightarrow>
             (if slot \<noteq> None \<and> slot \<noteq> Some word then Inr slot
              else if (probe_index + step) mod n = start_probe then Inr None
              else find_loop tbl n word step start_probe ((probe_index + step) mod n) (attempts + 1)))
      else Inr None)"
  by pat_completeness auto
termination
  by (relation "measure (\<lambda>(tbl, n, word, step, start_probe, probe_index, attempts). nat (n - attempts))")
    auto

declare find_loop.simps [simp del]

definition find_encrypted_word :: "digest \<Rightarrow> hash_mapper \<Rightarrow> string \<Rightarrow> string option result" where
  "find_encrypted_word H m word0 =
     (let word = strip (lower word0) in
      if word_to_index m word = None then Inr None
      else
        (case compute_hash H m word of
           Inl e \<Rightarrow> Inl e
         | Inr hash_index \<Rightarrow>
             (case compute_step H m word of
                Inl e \<Rightarrow> Inl e
              | Inr step \<Rightarrow>
                  find_loop (table m) (table_size m) word step
                    ((hash_index + step) mod table_size m)
                    ((hash_index + step) mod table_size m) 0)))"

text \<open>
  \<open>get_encryption_mapping\<close>. The loop visits the elements of \<open>set(words)\<close>, in an
  order Python does not specify: \<open>mapping_loop\<close> is the loop over the words in the
  order they are visited, and \<open>get_encryption_mapping\<close> takes the order of
  \<open>remdups\<close>. \<open>if encrypted\<close> is false for \<open>None\<close> and for the empty string.
\<close>

fun mapping_loop ::
  "digest \<Rightarrow> hash_mapper \<Rightarrow> string list \<Rightarrow> (string \<rightharpoonup> string) \<Rightarrow> (string \<rightharpoonup> string) result" where
  "mapping_loop H m [] mapping = Inr mapping"
| "mapping_loop H m (word # words) mapping =
     (case find_encrypted_word H m word of
        Inl e \<Rightarrow> Inl e
      | Inr encrypted \<Rightarrow>
          (if encrypted \<noteq> None \<and> encrypted \<noteq> Some [] then
             mapping_loop H m words (mapping(lower word \<mapsto> the encrypted))
           else mapping_loop H m words mapping))"

definition get_encryption_mapping ::
  "digest \<Rightarrow> hash_mapper \<Rightarrow> string list \<Rightarrow> (string \<rightharpoonup> string) result" where
  "get_encryption_mapping H m words = mapping_loop H m (remdups words) Map.empty"

text \<open>
  The statistics panel counts the filled slots:
  \<open>sum(1 for slot in self.hash_mapper.table if slot is not None)\<close>.
\<close>

definition filled_slots :: "hash_mapper \<Rightarrow> nat" where
  "filled_slots m = length (filter (\<lambda>slot. slot \<noteq> None) (table m))"

section \<open>The text transformer: \<open>encrypt_text_content\<close>\<close>

text \<open>
  \<open>replace_word\<close>, the function \<open>re.sub\<close> calls on every match.
\<close>

definition replace_word :: "(string \<rightharpoonup> string) \<Rightarrow> string \<Rightarrow> string" where
  "replace_word encryption_mapping word =
     (let word_lower = lower word in
      case encryption_mapping word_lower of
        Some encrypted \<Rightarrow>
          (if isupper word then upper encrypted
           else if istitle word then capitalize encrypted
           else encrypted)
      | None \<Rightarrow> word)"

text \<open>
  \<open>re.sub(r'\b[a-zA-Z]+\b', f, text)\<close>, read from left to right. At a position the
  pattern matches when there is a word boundary (the character before is no word
  character, or the text starts), the longest run of letters from there is not empty, and
  a word boundary follows the run (the text ends, or the next character is no word
  character). A shorter run never matches, as a letter follows it. The match is replaced
  by \<open>f\<close> of the run and the search goes on behind it; where there is no match the
  character is copied. \<open>prev\<close> says that the character before is a word character.
\<close>

function sub_scan :: "(string \<Rightarrow> string) \<Rightarrow> bool \<Rightarrow> string \<Rightarrow> string" where
  "sub_scan f prev [] = []"
| "sub_scan f prev (c # cs) =
     (if is_alpha c \<and> \<not> prev \<and>
         (dropWhile is_alpha cs = [] \<or> \<not> is_word_char (hd (dropWhile is_alpha cs)))
      then f (c # takeWhile is_alpha cs) @ sub_scan f True (dropWhile is_alpha cs)
      else c # sub_scan f (is_word_char c) cs)"
  by pat_completeness auto
termination
  by (relation "measure (\<lambda>(f, prev, s). length s)")
    (auto simp: less_Suc_eq_le length_dropWhile_le)

definition re_sub_words :: "(string \<Rightarrow> string) \<Rightarrow> string \<Rightarrow> string" where
  "re_sub_words f text = sub_scan f False text"

definition encrypt_text_content :: "string \<Rightarrow> (string \<rightharpoonup> string) \<Rightarrow> string" where
  "encrypt_text_content text encryption_mapping =
     (if text = [] \<or> strip text = [] then text
      else re_sub_words (replace_word encryption_mapping) text)"

section \<open>Sequences of calls, invariants and the walk of the lookup\<close>

text \<open>
  A caller that calls \<open>insert\<close> on each word in turn and catches what a call raises:
  \<open>insert_each\<close> is the object after the calls, \<open>insert_each_raised\<close> what each
  call raised (\<open>None\<close> for a call that returned).
\<close>

fun insert_each :: "digest \<Rightarrow> hash_mapper \<Rightarrow> string list \<Rightarrow> hash_mapper" where
  "insert_each H m [] = m"
| "insert_each H m (w # ws) = insert_each H (snd (insert_word H m w)) ws"

fun insert_each_raised :: "digest \<Rightarrow> hash_mapper \<Rightarrow> string list \<Rightarrow> py_error option list" where
  "insert_each_raised H m [] = []"
| "insert_each_raised H m (w # ws) =
     fst (insert_word H m w) # insert_each_raised H (snd (insert_word H m w)) ws"

text \<open>
  The invariant of the data model: the slot list has \<open>table_size\<close> slots;
  \<open>word_to_index\<close> maps a word to an index exactly when that slot holds the word (so a
  word is in at most one slot, and the dictionary agrees with the occupied slots); and
  \<open>index_to_word\<close> is the inverse of \<open>word_to_index\<close>.
\<close>

definition mapper_inv :: "hash_mapper \<Rightarrow> bool" where
  "mapper_inv m \<longleftrightarrow>
     length (table m) = nat (table_size m) \<and>
     (\<forall>w i. word_to_index m w = Some i \<longleftrightarrow>
        (0 \<le> i \<and> i < table_size m \<and> table m ! nat i = Some w)) \<and>
     (\<forall>i w. index_to_word m i = Some w \<longleftrightarrow> word_to_index m w = Some i)"

text \<open>
  \<open>slots_kept tbl tbl'\<close>: the two slot lists have the same length and every occupied
  slot of \<open>tbl\<close> has the same content in \<open>tbl'\<close>.
\<close>

definition slots_kept :: "string option list \<Rightarrow> string option list \<Rightarrow> bool" where
  "slots_kept tbl tbl' = list_all2 (\<lambda>slot slot'. slot \<noteq> None \<longrightarrow> slot' = slot) tbl tbl'"

text \<open>
  The walk of the lookup as the specification words it: it starts at \<open>start\<close>, advances
  by \<open>step\<close> modulo the capacity \<open>n\<close>, and ends after \<open>n\<close> slots or when it is back
  at \<open>start\<close>. \<open>first_differing\<close> is the content of the first slot on a walk that is
  occupied by a word other than \<open>w\<close>.
\<close>

definition walk :: "int \<Rightarrow> int \<Rightarrow> int \<Rightarrow> int list" where
  "walk n start step =
     start # takeWhile (\<lambda>p. p \<noteq> start) (map (\<lambda>k. (start + int k * step) mod n) [1..<nat n])"

definition first_differing :: "string option list \<Rightarrow> string \<Rightarrow> int list \<Rightarrow> string option" where
  "first_differing tbl w ps =
     (case List.find (\<lambda>p. tbl ! nat p \<noteq> None \<and> tbl ! nat p \<noteq> Some w) ps of
        None \<Rightarrow> None
      | Some p \<Rightarrow> tbl ! nat p)"

text \<open>
  The values of \<open>hashlib.sha256\<close> on the words of the examples below, for the closed
  instances; the examples hash no other word.
\<close>

definition sha256_sample :: digest where
  "sha256_sample w =
     (if w = ''cat'' then 54135252281593754928977010706017271185350777762748401427924688480919409292366
      else if w = ''dog'' then 92899658737677993390125014988635416215518967931714472622303875828951780395332
      else if w = ''bird'' then 55326123688671057505628423379138735555727165455301163746684736594610606829115
      else if w = ''fish'' then 81622437555576236642409107334174461137319991076995086641321868937224437172013
      else if w = ''fox'' then 54017284919492496764120971428534498461613441482552197102037518527316410950144
      else if w = ''a'' then 91634880152443617534842621287039938041581081254914058002978601050179556493499
      else if w = ''b'' then 28106838057724633541991236405213533498809717615002287594759165789551252471965
      else if w = ''hello'' then 20329878786436204988385760252021328656300425018755239228739303522659023427620
      else if w = ''Hello'' then 11024336812845202542736754815889718862783203771635063178616734621641926515049
      else 0)"

section \<open>Lists, characters and strings\<close>

lemma to_lower_not_upper: "\<not> is_upper (to_lower c)"
  by (auto simp: to_lower_def is_upper_def Let_def)

lemma is_lower_to_lower: "is_lower (to_lower c) \<longleftrightarrow> is_alpha c"
  by (auto simp: to_lower_def is_upper_def is_lower_def is_alpha_def Let_def)

lemma is_space_to_lower: "is_space (to_lower c) \<longleftrightarrow> is_space c"
  by (auto simp: to_lower_def is_upper_def is_space_def Let_def)

lemma to_lower_idem: "to_lower (to_lower c) = to_lower c"
  using to_lower_not_upper [of c] by (simp add: to_lower_def [of "to_lower c"])

lemma lower_idem: "lower (lower s) = lower s"
  by (simp add: lower_def to_lower_idem)

lemma set_strip_subset: "set (strip s) \<subseteq> set s"
proof -
  have "set (strip s) \<subseteq> set (dropWhile is_space s)"
    unfolding strip_def using set_dropWhileD by fastforce
  also have "\<dots> \<subseteq> set s" using set_dropWhileD by fastforce
  finally show ?thesis .
qed

lemma dropWhile_map_lower: "dropWhile is_space (map to_lower s) = map to_lower (dropWhile is_space s)"
  by (induction s) (simp_all add: is_space_to_lower)

lemma strip_lower: "strip (lower s) = lower (strip s)"
  by (simp add: strip_def lower_def dropWhile_map_lower rev_map)

lemma dropWhile_idem: "dropWhile P (dropWhile P xs) = dropWhile P xs"
  by (induction xs) simp_all

lemma strip_Nil_iff: "strip s = [] \<longleftrightarrow> (\<forall>c \<in> set s. is_space c)"
proof
  assume "strip s = []"
  then have all: "\<forall>c \<in> set (dropWhile is_space s). is_space c"
    by (simp add: strip_def dropWhile_eq_Nil_conv)
  have "dropWhile is_space s = []"
  proof (rule ccontr)
    assume ne: "dropWhile is_space s \<noteq> []"
    then have "\<not> is_space (hd (dropWhile is_space s))" by (rule hd_dropWhile)
    with all ne show False by simp
  qed
  then show "\<forall>c \<in> set s. is_space c" by (simp add: dropWhile_eq_Nil_conv)
next
  assume "\<forall>c \<in> set s. is_space c"
  then have "dropWhile is_space s = []" by (simp add: dropWhile_eq_Nil_conv)
  then show "strip s = []" unfolding strip_def by (simp only: rev.simps dropWhile.simps)
qed

lemma dropWhile_hd_self: "xs \<noteq> [] \<Longrightarrow> \<not> P (hd xs) \<Longrightarrow> dropWhile P xs = xs"
  by (cases xs) simp_all

lemma strip_idem: "strip (strip s) = strip s"
proof -
  define t where "t = dropWhile is_space s"
  define u where "u = dropWhile is_space (rev t)"
  have s1: "strip s = rev u" by (simp add: strip_def t_def u_def)
  show ?thesis
  proof (cases "u = []")
    case True
    with s1 have e: "strip s = []" by simp
    have "strip [] = []" by (simp add: strip_def)
    with e show ?thesis by (simp only:)
  next
    case False
    then have hu: "\<not> is_space (hd u)" unfolding u_def by (rule hd_dropWhile)
    have tne: "t \<noteq> []"
    proof
      assume "t = []"
      then have "u = []" unfolding u_def by (simp only: rev.simps dropWhile.simps)
      with False show False ..
    qed
    then have ht: "\<not> is_space (hd t)" unfolding t_def by (rule hd_dropWhile)
    have "rev t = takeWhile is_space (rev t) @ u"
      unfolding u_def by (rule takeWhile_dropWhile_id [symmetric])
    then have "rev (rev t) = rev (takeWhile is_space (rev t) @ u)" by (rule arg_cong)
    then have "t = rev u @ rev (takeWhile is_space (rev t))" by (simp only: rev_rev_ident rev_append)
    with False have "hd t = hd (rev u)" by (metis hd_append2 rev_is_Nil_conv)
    with ht have "\<not> is_space (hd (rev u))" by simp
    with False have 1: "dropWhile is_space (rev u) = rev u"
      by (simp add: dropWhile_hd_self)
    from False hu have 2: "dropWhile is_space u = u" by (rule dropWhile_hd_self)
    have "strip (rev u) = rev (dropWhile is_space (rev (dropWhile is_space (rev u))))"
      by (simp only: strip_def)
    also have "\<dots> = rev u" by (simp only: 1 2 rev_rev_ident)
    finally show ?thesis by (simp only: s1)
  qed
qed

lemma upper_not_canonical:
  assumes "c \<in> set w" "is_upper c"
  shows "strip (lower w) \<noteq> w"
proof
  assume "strip (lower w) = w"
  with assms(1) have "c \<in> set (lower w)" using set_strip_subset [of "lower w"] by auto
  then obtain d where "c = to_lower d" by (auto simp: lower_def)
  with assms(2) show False by (simp add: to_lower_not_upper)
qed

section \<open>The probe of \<open>insert\<close> and the invariant\<close>


lemma py_getitem_in_range:
  "0 \<le> i \<Longrightarrow> i < int (length xs) \<Longrightarrow> py_getitem xs i = Inr (xs ! nat i)"
  by (simp add: py_getitem_def py_index_def)

lemma py_getitem_empty: "py_getitem [] i = Inl IndexError"
  by (simp add: py_getitem_def py_index_def)

lemma insert_probe_empty_table: "insert_probe [] n original_index index probe = Inl IndexError"
  by (subst insert_probe.simps) (simp add: py_getitem_empty)

lemma insert_probe_sound:
  "insert_probe tbl n original_index index probe = Inr idx \<Longrightarrow> py_getitem tbl idx = Inr None"
proof (induction tbl n original_index index probe rule: insert_probe.induct)
  case (1 tbl n original_index index probe)
  from "1.prems" show ?case
    by (subst (asm) insert_probe.simps)
      (auto split: sum.splits option.splits if_splits intro: "1.IH")
qed

lemma insert_probe_range:
  "0 < n \<Longrightarrow> 0 \<le> index \<Longrightarrow> index < n \<Longrightarrow>
   insert_probe tbl n original_index index probe = Inr idx \<Longrightarrow> 0 \<le> idx \<and> idx < n"
proof (induction tbl n original_index index probe rule: insert_probe.induct)
  case (1 tbl n original_index index probe)
  from "1.prems" show ?case
    by (subst (asm) insert_probe.simps)
      (auto split: sum.splits option.splits if_splits dest: "1.IH"[rotated -1])
qed


lemma insert_word_cases:
  obtains (present) "word_to_index m w \<noteq> None" "insert_word H m w = (None, m)"
  | (raised) e where "word_to_index m w = None" "insert_word H m w = (Some e, m)"
  | (stored) idx j original_index where "word_to_index m w = None"
      "compute_hash H m w = Inr original_index"
      "insert_probe (table m) (table_size m) original_index original_index 0 = Inr idx"
      "py_index (table m) idx = Inr j"
      "insert_word H m w =
         (None, m\<lparr>table := (table m)[j := Some w],
                  word_to_index := (word_to_index m)(w \<mapsto> idx),
                  index_to_word := (index_to_word m)(idx \<mapsto> w)\<rparr>)"
proof (cases "word_to_index m w")
  case (Some i)
  then show thesis using present by (simp add: insert_word_def)
next
  case None
  show thesis
  proof (cases "compute_hash H m w")
    case (Inl e)
    with None show thesis using raised by (simp add: insert_word_def)
  next
    case hash: (Inr original_index)
    show thesis
    proof (cases "insert_probe (table m) (table_size m) original_index original_index 0")
      case (Inl e)
      with None hash show thesis using raised by (simp add: insert_word_def)
    next
      case probe: (Inr idx)
      show thesis
      proof (cases "py_index (table m) idx")
        case (Inl e)
        with None hash probe show thesis using raised
          by (simp add: insert_word_def py_setitem_def)
      next
        case (Inr j)
        with None hash probe show thesis using stored
          by (simp add: insert_word_def py_setitem_def)
      qed
    qed
  qed
qed

lemma stored_slot_empty:
  assumes "insert_probe tbl n original_index index probe = Inr idx"
    and "py_index tbl idx = Inr j"
  shows "j < length tbl \<and> tbl ! j = None"
proof -
  from assms(1) have "py_getitem tbl idx = Inr None" by (rule insert_probe_sound)
  with assms(2) show ?thesis
    by (auto simp: py_getitem_def py_index_def Let_def split: if_splits)
qed

lemma insert_word_slots_kept: "slots_kept (table m) (table (snd (insert_word H m w)))"
proof (cases rule: insert_word_cases [of m w H])
  case present
  then show ?thesis by (simp add: slots_kept_def list_all2_conv_all_nth)
next
  case (raised e)
  then show ?thesis by (simp add: slots_kept_def list_all2_conv_all_nth)
next
  case (stored idx j original_index)
  from stored(3,4) have "j < length (table m) \<and> table m ! j = None"
    by (rule stored_slot_empty)
  with stored(5) show ?thesis
    by (auto simp: slots_kept_def list_all2_conv_all_nth nth_list_update)
qed

lemma mapper_inv_positive:
  assumes "mapper_inv m"
    and "insert_probe (table m) (table_size m) original_index index probe = Inr idx"
  shows "0 < table_size m"
proof (rule ccontr)
  assume "\<not> 0 < table_size m"
  with assms(1) have "table m = []" by (simp add: mapper_inv_def)
  with assms(2) show False by (simp add: insert_probe_empty_table)
qed

lemma insert_word_inv:
  assumes inv: "mapper_inv m"
  shows "mapper_inv (snd (insert_word H m w))"
proof (cases rule: insert_word_cases [of m w H])
  case present
  with inv show ?thesis by simp
next
  case (raised e)
  with inv show ?thesis by simp
next
  case (stored idx j original_index)
  let ?n = "table_size m"
  define m' where "m' = snd (insert_word H m w)"
  from stored(5) have fields: "table_size m' = ?n" "table m' = (table m)[j := Some w]"
    "word_to_index m' = (word_to_index m)(w \<mapsto> idx)"
    "index_to_word m' = (index_to_word m)(idx \<mapsto> w)"
    by (simp_all add: m'_def)
  from inv have len: "length (table m) = nat ?n" by (simp add: mapper_inv_def)
  from inv stored(3) have pos: "0 < ?n" by (rule mapper_inv_positive)
  from stored(2) pos have orig: "0 \<le> original_index" "original_index < ?n"
    by (auto simp: compute_hash_def split: if_splits)
  from insert_probe_range [OF pos orig stored(3)] have idx: "0 \<le> idx" "idx < ?n" by simp_all
  with stored(4) len have j: "j = nat idx"
    by (auto simp: py_index_def Let_def split: if_splits)
  from stored(3,4) have empty: "table m ! nat idx = None" "nat idx < length (table m)"
    using stored_slot_empty j by blast+
  from inv have w2i: "\<And>v i. word_to_index m v = Some i \<longleftrightarrow>
      (0 \<le> i \<and> i < ?n \<and> table m ! nat i = Some v)"
    and i2w: "\<And>i v. index_to_word m i = Some v \<longleftrightarrow> word_to_index m v = Some i"
    by (simp_all add: mapper_inv_def)
  have nat_eq: "\<And>i. 0 \<le> i \<Longrightarrow> (nat i = nat idx) = (i = idx)"
    using idx by auto
  have 1: "length (table m') = nat (table_size m')"
    using len by (simp add: fields)
  have 2: "word_to_index m' v = Some i \<longleftrightarrow>
      (0 \<le> i \<and> i < table_size m' \<and> table m' ! nat i = Some v)" for v i
  proof (cases "v = w")
    case True
    show ?thesis
    proof (cases "i = idx")
      case True
      with \<open>v = w\<close> idx empty show ?thesis by (simp add: fields j)
    next
      case False
      with \<open>v = w\<close> stored(1) w2i [of w i] nat_eq [of i] empty show ?thesis
        by (auto simp: fields j)
    qed
  next
    case False
    show ?thesis
    proof (cases "i = idx")
      case True
      with False w2i [of v idx] empty idx show ?thesis by (simp add: fields j)
    next
      case False
      with \<open>v \<noteq> w\<close> w2i [of v i] nat_eq [of i] show ?thesis
        by (auto simp: fields j)
    qed
  qed
  have 3: "index_to_word m' i = Some v \<longleftrightarrow> word_to_index m' v = Some i" for i v
  proof (cases "i = idx")
    case True
    with w2i [of v idx] empty stored(1) show ?thesis by (auto simp: fields)
  next
    case False
    with i2w [of i v] stored(1) show ?thesis by (auto simp: fields)
  qed
  from 1 2 3 show ?thesis
    unfolding m'_def [symmetric] mapper_inv_def by blast
qed

lemma new_mapper_inv: "mapper_inv (new_mapper n)"
  by (simp add: mapper_inv_def new_mapper_def)

lemma insert_each_inv: "mapper_inv m \<Longrightarrow> mapper_inv (insert_each H m ws)"
  by (induction ws arbitrary: m) (simp_all add: insert_word_inv)

section \<open>Evaluation of closed instances\<close>

text \<open>
  The equations that evaluate the hash table operations on a concrete table.
\<close>

lemmas eval_defs = insert_word_def new_mapper_def compute_hash_def compute_step_def sha256_sample_def
  insert_probe.simps py_getitem_def py_index_def py_setitem_def find_encrypted_word_def find_loop.simps

lemma replicate_numeral': "replicate (numeral k) x = x # replicate (pred_numeral k) x"
  by (simp add: numeral_eq_Suc)

lemma slots_kept_refl: "slots_kept tbl tbl"
  by (simp add: slots_kept_def list_all2_conv_all_nth)

lemma slots_kept_trans: "slots_kept a b \<Longrightarrow> slots_kept b c \<Longrightarrow> slots_kept a c"
  by (auto simp: slots_kept_def list_all2_conv_all_nth)

lemma insert_each_slots_kept: "slots_kept (table m) (table (insert_each H m ws))"
proof (induction ws arbitrary: m)
  case Nil
  show ?case by (simp add: slots_kept_refl)
next
  case (Cons w ws)
  show ?case
    using insert_word_slots_kept [of m H w] Cons.IH [of "snd (insert_word H m w)"]
    by (auto intro: slots_kept_trans)
qed

lemma insert_each_append: "insert_each H m (ws @ ws') = insert_each H (insert_each H m ws) ws'"
  by (induction ws arbitrary: m) simp_all

lemma mapper_inv_stored:
  assumes "mapper_inv m" "Some w \<in> set (table m)"
  shows "word_to_index m w \<noteq> None"
proof -
  from assms(2) obtain i where i: "i < length (table m)" "table m ! i = Some w"
    by (auto simp: in_set_conv_nth)
  with assms(1) have "word_to_index m w = Some (int i)"
    by (simp add: mapper_inv_def)
  then show ?thesis by simp
qed

lemma mapper_inv_indexed:
  assumes "mapper_inv m" "word_to_index m w = Some i"
  shows "Some w \<in> set (table m)"
proof -
  from assms have "0 \<le> i" "i < table_size m" "table m ! nat i = Some w"
    and "length (table m) = nat (table_size m)"
    by (simp_all add: mapper_inv_def)
  then have "nat i < length (table m)" by simp
  with \<open>table m ! nat i = Some w\<close> show ?thesis by (metis nth_mem)
qed

lemma mapper_inv_one_slot:
  assumes "mapper_inv m" "i < length (table m)" "j < length (table m)"
    "table m ! i = Some w" "table m ! j = Some w"
  shows "i = j"
proof -
  from assms have "word_to_index m w = Some (int i)" "word_to_index m w = Some (int j)"
    by (simp_all add: mapper_inv_def)
  then show ?thesis by simp
qed

section \<open>The invariant of the table\<close>

text \<open>
  Claim C5. After any sequence of \<open>insert\<close> calls on a freshly constructed table
  (calls that raise included), the invariant holds: \<open>word_to_index\<close> and
  \<open>index_to_word\<close> are inverse to each other and agree exactly with the occupied slots;
  no word is in two slots; and every slot that is occupied keeps its content through any
  further inserts.
\<close>

theorem insert_keeps_invariant:
  "mapper_inv (insert_each H (new_mapper n) ws) \<and>
   (\<forall>i < length (table (insert_each H (new_mapper n) ws)).
      \<forall>j < length (table (insert_each H (new_mapper n) ws)).
        table (insert_each H (new_mapper n) ws) ! i \<noteq> None \<and>
        table (insert_each H (new_mapper n) ws) ! i = table (insert_each H (new_mapper n) ws) ! j
        \<longrightarrow> i = j) \<and>
   slots_kept (table (insert_each H (new_mapper n) ws))
     (table (insert_each H (new_mapper n) (ws @ ws')))"
proof -
  let ?m = "insert_each H (new_mapper n) ws"
  have inv: "mapper_inv ?m" by (simp add: insert_each_inv new_mapper_inv)
  moreover have "\<forall>i < length (table ?m). \<forall>j < length (table ?m).
      table ?m ! i \<noteq> None \<and> table ?m ! i = table ?m ! j \<longrightarrow> i = j"
    using mapper_inv_one_slot [OF inv] by (metis not_None_eq)
  moreover have "slots_kept (table ?m) (table (insert_each H (new_mapper n) (ws @ ws')))"
    by (simp add: insert_each_append insert_each_slots_kept)
  ultimately show ?thesis by blast
qed

theorem insert_keeps_invariant_witness:
  "table (insert_each sha256_sample (new_mapper 5) [''cat'', ''dog'', ''bird'', ''fish'', ''fox'']) =
     [Some ''bird'', Some ''cat'', Some ''dog'', Some ''fish'', Some ''fox''] \<and>
   mapper_inv (insert_each sha256_sample (new_mapper 5) [''cat'', ''dog'', ''bird'', ''fish'', ''fox'']) \<and>
   slots_kept (table (insert_each sha256_sample (new_mapper 5) [''cat'', ''dog'']))
     (table (insert_each sha256_sample (new_mapper 5) ([''cat'', ''dog''] @ [''bird'', ''fish''])))"
proof -
  have "table (insert_each sha256_sample (new_mapper 5) [''cat'', ''dog'', ''bird'', ''fish'', ''fox'']) =
     [Some ''bird'', Some ''cat'', Some ''dog'', Some ''fish'', Some ''fox'']"
    by (simp add: eval_defs replicate_numeral')
  then show ?thesis
    using insert_keeps_invariant [of sha256_sample 5 "[''cat'', ''dog'', ''bird'', ''fish'', ''fox'']" "[]"]
      insert_keeps_invariant [of sha256_sample 5 "[''cat'', ''dog'']" "[''bird'', ''fish'']"]
    by blast
qed

section \<open>Idempotent insertion\<close>

text \<open>
  Claim C8. For a word that is already in a slot of the table, \<open>insert\<close> returns
  without raising and leaves the object as it was: the slot list, the number of filled
  slots and the result of every later \<open>find_encrypted_word\<close> are unchanged. And
  whatever the table, a second \<open>insert\<close> of a word right after a first one that
  returned changes nothing.
\<close>

theorem insert_idempotent:
  assumes "Some w \<in> set (table (insert_each H (new_mapper n) ws))"
  shows "insert_word H (insert_each H (new_mapper n) ws) w = (None, insert_each H (new_mapper n) ws) \<and>
     table (snd (insert_word H (insert_each H (new_mapper n) ws) w)) =
       table (insert_each H (new_mapper n) ws) \<and>
     filled_slots (snd (insert_word H (insert_each H (new_mapper n) ws) w)) =
       filled_slots (insert_each H (new_mapper n) ws) \<and>
     (\<forall>v. find_encrypted_word H (snd (insert_word H (insert_each H (new_mapper n) ws) w)) v =
       find_encrypted_word H (insert_each H (new_mapper n) ws) v) \<and>
     (\<forall>m0. fst (insert_word H m0 w) = None \<longrightarrow>
       insert_word H (snd (insert_word H m0 w)) w = (None, snd (insert_word H m0 w)))"
proof -
  let ?m = "insert_each H (new_mapper n) ws"
  have "mapper_inv ?m" by (simp add: insert_each_inv new_mapper_inv)
  from this assms have "word_to_index ?m w \<noteq> None" by (rule mapper_inv_stored)
  then have same: "insert_word H ?m w = (None, ?m)" by (simp add: insert_word_def)
  have twice: "insert_word H (snd (insert_word H m0 w)) w = (None, snd (insert_word H m0 w))"
    if "fst (insert_word H m0 w) = None" for m0
  proof (cases rule: insert_word_cases [of m0 w H])
    case present
    then show ?thesis by simp
  next
    case (raised e)
    with that show ?thesis by simp
  next
    case (stored idx j original_index)
    then show ?thesis by (simp add: insert_word_def)
  qed
  from same twice show ?thesis by simp
qed

theorem insert_idempotent_witness:
  "Some ''cat'' \<in> set (table (insert_each sha256_sample (new_mapper 5) [''cat'', ''dog''])) \<and>
   insert_word sha256_sample (insert_each sha256_sample (new_mapper 5) [''cat'', ''dog'']) ''cat'' =
     (None, insert_each sha256_sample (new_mapper 5) [''cat'', ''dog''])"
proof -
  have h: "Some ''cat'' \<in> set (table (insert_each sha256_sample (new_mapper 5) [''cat'', ''dog'']))"
    by (simp add: eval_defs replicate_numeral')
  from insert_idempotent [OF h] h show ?thesis by blast
qed

section \<open>Construction with a capacity below one\<close>

text \<open>
  \<open>__init__\<close> does not check its argument. With \<open>table_size = 0\<close> it returns an
  object with no slot.
\<close>

theorem init_zero_counterexample:
  "\<not> isl (init 0) \<and> init 0 = Inr (new_mapper 0) \<and> table (new_mapper 0) = [] \<and>
   table_size (new_mapper 0) = 0"
  by (simp add: init_def new_mapper_def)


text \<open>
  Claim C3, as the code has it. Constructing a table with a capacity of zero or less
  raises nothing: it returns an object with the given \<open>table_size\<close>, an empty slot list
  and empty dictionaries. The first \<open>insert\<close> into it raises (\<open>ZeroDivisionError\<close> at
  capacity zero, \<open>IndexError\<close> below) and leaves the object as it was.
\<close>

theorem init_nonpositive:
  assumes "n < 1"
  shows "init n = Inr \<lparr>table_size = n, table = [], word_to_index = Map.empty,
           index_to_word = Map.empty\<rparr> \<and>
         insert_word H (new_mapper n) w =
           (Some (if n = 0 then ZeroDivisionError else IndexError), new_mapper n)"
  using assms
  by (simp add: init_def new_mapper_def insert_word_def compute_hash_def
      insert_probe_empty_table)

theorem init_nonpositive_witness:
  "(0::int) < 1 \<and> init 0 = Inr \<lparr>table_size = 0, table = [], word_to_index = Map.empty,
           index_to_word = Map.empty\<rparr> \<and>
   insert_word sha256_sample (new_mapper 0) ''cat'' = (Some ZeroDivisionError, new_mapper 0) \<and>
   insert_word sha256_sample (new_mapper (- 3)) ''cat'' = (Some IndexError, new_mapper (- 3))"
proof -
  have h: "(0::int) < 1" and h': "(- 3::int) < 1" by simp_all
  show ?thesis
    using init_nonpositive [OF h, of sha256_sample "''cat''"]
      init_nonpositive [OF h', of sha256_sample "''cat''"]
    by simp
qed

section \<open>The lookup at capacity one\<close>

text \<open>
  Claim C2, as the code has it. In a table of capacity one \<open>find_encrypted_word\<close>
  returns \<open>None\<close> for every word whose stripped lower case form is not stored; for a
  word that is stored, \<open>_compute_step\<close> takes a remainder modulo
  \<open>table_size - 1 = 0\<close> and the call raises \<open>ZeroDivisionError\<close>.
\<close>

theorem find_capacity_one:
  assumes "table_size m = 1"
  shows "find_encrypted_word H m w =
     (if word_to_index m (strip (lower w)) = None then Inr None else Inl ZeroDivisionError)"
  using assms by (simp add: find_encrypted_word_def compute_hash_def compute_step_def Let_def)


text \<open>
  The table of capacity one that holds the word \<open>a\<close>: looking \<open>a\<close> up raises.
\<close>

theorem find_capacity_one_counterexample:
  "insert_word sha256_sample (new_mapper 1) ''a'' =
     (None, \<lparr>table_size = 1, table = [Some ''a''], word_to_index = [''a'' \<mapsto> 0],
              index_to_word = [0 \<mapsto> ''a'']\<rparr>) \<and>
   find_encrypted_word sha256_sample (snd (insert_word sha256_sample (new_mapper 1) ''a'')) ''a'' =
     Inl ZeroDivisionError"
  by (simp add: eval_defs strip_def lower_def to_lower_def is_upper_def is_space_def)

theorem find_capacity_one_witness:
  "table_size (insert_each sha256_sample (new_mapper 1) [''a'']) = 1 \<and>
   find_encrypted_word sha256_sample (insert_each sha256_sample (new_mapper 1) [''a'']) ''b'' = Inr None \<and>
   find_encrypted_word sha256_sample (insert_each sha256_sample (new_mapper 1) [''a'']) ''a'' =
     Inl ZeroDivisionError"
proof -
  have h: "table_size (insert_each sha256_sample (new_mapper 1) [''a'']) = 1"
    by (simp add: eval_defs)
  have a: "word_to_index (insert_each sha256_sample (new_mapper 1) [''a'']) (strip (lower ''a'')) \<noteq> None"
    by (simp add: eval_defs strip_def lower_def to_lower_def is_upper_def is_space_def)
  have b: "word_to_index (insert_each sha256_sample (new_mapper 1) [''a'']) (strip (lower ''b'')) = None"
    by (simp add: eval_defs strip_def lower_def to_lower_def is_upper_def is_space_def)
  show ?thesis
    using find_capacity_one [OF h, of sha256_sample "''a''"]
      find_capacity_one [OF h, of sha256_sample "''b''"] h a b
    by simp
qed

section \<open>Words inserted verbatim\<close>

text \<open>
  Claim C10. \<open>insert\<close> stores its argument as it is, \<open>find_encrypted_word\<close> looks
  up the stripped lower case form. So for a string \<open>w\<close> with an upper case letter whose
  stripped lower case form was never inserted, \<open>find_encrypted_word\<close> after
  \<open>insert\<close> returns \<open>None\<close>, although \<open>w\<close> is in a slot whenever the \<open>insert\<close>
  returned.
\<close>

theorem verbatim_insert_hides_word:
  assumes up: "c \<in> set w" "is_upper c"
    and never: "word_to_index (insert_each H (new_mapper n) ws) (strip (lower w)) = None"
  shows "find_encrypted_word H (snd (insert_word H (insert_each H (new_mapper n) ws) w)) w = Inr None \<and>
     (fst (insert_word H (insert_each H (new_mapper n) ws) w) = None \<longrightarrow>
        Some w \<in> set (table (snd (insert_word H (insert_each H (new_mapper n) ws) w))) \<and>
        word_to_index (snd (insert_word H (insert_each H (new_mapper n) ws) w)) w \<noteq> None)"
proof -
  let ?m = "insert_each H (new_mapper n) ws"
  let ?m' = "snd (insert_word H ?m w)"
  have inv: "mapper_inv ?m" by (simp add: insert_each_inv new_mapper_inv)
  then have inv': "mapper_inv ?m'" by (rule insert_word_inv)
  from up have ne: "strip (lower w) \<noteq> w" by (rule upper_not_canonical)
  have "word_to_index ?m' (strip (lower w)) = None \<and>
    (fst (insert_word H ?m w) = None \<longrightarrow> word_to_index ?m' w \<noteq> None)"
  proof (cases rule: insert_word_cases [of ?m w H])
    case present
    with never show ?thesis by simp
  next
    case (raised e)
    with never show ?thesis by simp
  next
    case (stored idx j original_index)
    with never ne show ?thesis by simp
  qed
  then have hidden: "word_to_index ?m' (strip (lower w)) = None"
    and in_index: "fst (insert_word H ?m w) = None \<Longrightarrow> word_to_index ?m' w \<noteq> None"
    by simp_all
  have "Some w \<in> set (table ?m')" if "fst (insert_word H ?m w) = None"
  proof -
    from in_index [OF that] obtain i where "word_to_index ?m' w = Some i" by blast
    with inv' show ?thesis by (rule mapper_inv_indexed)
  qed
  moreover from hidden have "find_encrypted_word H ?m' w = Inr None"
    by (simp add: find_encrypted_word_def)
  ultimately show ?thesis using in_index by blast
qed

theorem verbatim_insert_hides_word_witness:
  "find_encrypted_word sha256_sample
     (snd (insert_word sha256_sample (insert_each sha256_sample (new_mapper 5) [''cat'']) ''Hello''))
     ''Hello'' = Inr None \<and>
   Some ''Hello'' \<in> set (table
     (snd (insert_word sha256_sample (insert_each sha256_sample (new_mapper 5) [''cat'']) ''Hello'')))"
proof -
  have up: "CHR ''H'' \<in> set ''Hello''" "is_upper CHR ''H''"
    by (simp_all add: is_upper_def)
  have never: "word_to_index (insert_each sha256_sample (new_mapper 5) [''cat''])
      (strip (lower ''Hello'')) = None"
    by (simp add: eval_defs replicate_numeral' strip_def lower_def to_lower_def is_upper_def
        is_space_def char_of_def)
  have ok: "fst (insert_word sha256_sample (insert_each sha256_sample (new_mapper 5) [''cat''])
      ''Hello'') = None"
    by (simp add: eval_defs replicate_numeral')
  from verbatim_insert_hides_word [OF up never] ok show ?thesis by blast
qed

end
